theory Spec2Isabelle
  imports Complex_Main "HOL-Library.Char_ord" "HOL-Library.List_Lexorder" "HOL-Library.Multiset" "HOL-Library.Word"
begin

unbundle bit_operations_syntax

section \<open>Python values shared by both modules\<close>

text \<open>
  Exceptions are values: every function of the source that can raise returns
  \<open>py_error + 'a\<close>, with \<open>Inl\<close> for the exception.  Python's unbounded \<open>int\<close> is
  \<open>int\<close>; \<open>str\<close> is \<open>string\<close>.
\<close>

datatype py_error = ValueError | ZeroDivisionError | TypeError

text \<open>\<open>a // b\<close>: floor division, raising on a zero divisor.\<close>

definition floordiv :: "int \<Rightarrow> int \<Rightarrow> py_error + int" where
  "floordiv a b = (if b = 0 then Inl ZeroDivisionError else Inr (a div b))"

text \<open>\<open>range(n)\<close> for an integer \<open>n\<close>; empty when \<open>n \<le> 0\<close>.\<close>

definition range_py :: "int \<Rightarrow> int list" where
  "range_py n = map int [0..<nat n]"

text \<open>\<open>str(i)\<close> of an integer, as an f-string formats it: decimal digits, a minus sign first.\<close>

fun str_nat :: "nat \<Rightarrow> string" where
  "str_nat n =
     (if n < 10 then [''0123456789'' ! n]
      else str_nat (n div 10) @ [''0123456789'' ! (n mod 10)])"

declare str_nat.simps [simp del]

definition str_int :: "int \<Rightarrow> string" where
  "str_int i = (if i < 0 then CHR ''-'' # str_nat (nat (- i)) else str_nat (nat i))"

text \<open>
  Running the bodies of a loop in order, each of which may raise: the first exception
  ends the loop, otherwise the results are collected in order.
\<close>

fun collect :: "(py_error + 'a) list \<Rightarrow> py_error + 'a list" where
  "collect [] = Inr []"
| "collect (Inl e # rs) = Inl e"
| "collect (Inr x # rs) = (case collect rs of Inl e \<Rightarrow> Inl e | Inr xs \<Rightarrow> Inr (x # xs))"

section \<open>MAKEROrchestrator.decompose\<close>

record step =
  step_id :: string
  action :: string

record subtask =
  sub_id :: string
  sub_description :: string
  steps :: "step list"

record component =
  comp_id :: string
  comp_description :: string
  subtasks :: "subtask list"

record decomposition =
  original_task :: string
  task_decomposition_level :: int
  task_max_depth :: int
  components :: "component list"
  total_steps :: int
  status :: string

text \<open>Level 3, the loop over \<open>k\<close>: the steps of subtask \<open>j\<close> of component \<open>i\<close>.\<close>

definition decompose_steps :: "int \<Rightarrow> int \<Rightarrow> int \<Rightarrow> step list" where
  "decompose_steps i j step_count =
     map (\<lambda>k. \<lparr>step_id = ''step-'' @ str_int i @ ''-'' @ str_int j @ ''-'' @ str_int k,
                action = ''Execute step '' @ str_int k\<rparr>)
       (range_py step_count)"

text \<open>Level 2, the body of the loop over \<open>j\<close>.\<close>

definition decompose_subtask :: "int \<Rightarrow> int \<Rightarrow> int \<Rightarrow> int \<Rightarrow> int \<Rightarrow> int \<Rightarrow> py_error + subtask" where
  "decompose_subtask decomposition_level max_depth major_components sub_count i j =
     (if max_depth > 2 then
        (case floordiv decomposition_level (major_components * sub_count) of
           Inl e \<Rightarrow> Inl e
         | Inr q \<Rightarrow>
             Inr \<lparr>sub_id = ''subtask-'' @ str_int i @ ''-'' @ str_int j,
                  sub_description = ''Subtask '' @ str_int j @ '' of component '' @ str_int i,
                  steps = decompose_steps i j (min q 10)\<rparr>)
      else
        Inr \<lparr>sub_id = ''subtask-'' @ str_int i @ ''-'' @ str_int j,
             sub_description = ''Subtask '' @ str_int j @ '' of component '' @ str_int i,
             steps = []\<rparr>)"

text \<open>Level 1, the body of the loop over \<open>i\<close>.\<close>

definition decompose_component :: "string \<Rightarrow> int \<Rightarrow> int \<Rightarrow> int \<Rightarrow> int \<Rightarrow> py_error + component" where
  "decompose_component task decomposition_level max_depth major_components i =
     (if max_depth > 1 then
        (case floordiv decomposition_level major_components of
           Inl e \<Rightarrow> Inl e
         | Inr q \<Rightarrow>
             (let sub_count = min q 20 in
              case collect (map (decompose_subtask decomposition_level max_depth
                                   major_components sub_count i) (range_py sub_count)) of
                Inl e \<Rightarrow> Inl e
              | Inr subs \<Rightarrow>
                  Inr \<lparr>comp_id = ''component-'' @ str_int i,
                       comp_description = ''Component '' @ str_int i @ '': '' @ task
                                          @ '' part '' @ str_int (i + 1),
                       subtasks = subs\<rparr>))
      else
        Inr \<lparr>comp_id = ''component-'' @ str_int i,
             comp_description = ''Component '' @ str_int i @ '': '' @ task
                                @ '' part '' @ str_int (i + 1),
             subtasks = []\<rparr>)"

text \<open>One summand of \<open>total_steps\<close>: a component without subtasks counts as 1.\<close>

definition component_steps :: "component \<Rightarrow> int" where
  "component_steps c =
     (case subtasks c of
        [] \<Rightarrow> 1
      | s # _ \<Rightarrow> int (length (subtasks c)) * int (length (steps s)))"

definition decompose :: "string \<Rightarrow> int \<Rightarrow> int \<Rightarrow> py_error + decomposition" where
  "decompose task decomposition_level max_depth =
     (let major_components = min (decomposition_level div 10) 10 in
      case collect (map (decompose_component task decomposition_level max_depth major_components)
                      (range_py major_components)) of
        Inl e \<Rightarrow> Inl e
      | Inr comps \<Rightarrow>
          Inr \<lparr>original_task = task,
               task_decomposition_level = decomposition_level,
               task_max_depth = max_depth,
               components = comps,
               total_steps = sum_list (map component_steps comps),
               status = ''decomposed''\<rparr>)"

section \<open>Structured results and \<open>json.dumps(result, sort_keys=True)\<close>\<close>

text \<open>
  A result is a Python value built from \<open>None\<close>, booleans, integers, strings, lists and
  dicts.  A dict is the list of its items in insertion order; its keys are the key types
  \<open>json.dumps\<close> accepts.  Floats are not part of the model.  A \<open>str\<close> is a \<open>string\<close>
  whose characters are the code points below 256.

  \<open>json_dumps\<close> is \<open>json.dumps\<close> with its default separators, \<open>ensure_ascii=True\<close>
  and \<open>sort_keys=True\<close>: the items of every dict are sorted by key before the keys are
  turned into strings, and sorting raises \<open>TypeError\<close> when two keys of different kinds
  (a string and a number, \<open>None\<close> and anything) have to be compared, which happens as
  soon as a dict with two or more items has keys of two kinds.
\<close>

datatype pykey = KStr string | KInt int | KBool bool | KNone

datatype pyval =
    VNone
  | VBool bool
  | VInt int
  | VStr string
  | VList "pyval list"
  | VDict "(pykey \<times> pyval) list"

fun is_str_key :: "pykey \<Rightarrow> bool" where
  "is_str_key (KStr s) = True"
| "is_str_key _ = False"

fun is_num_key :: "pykey \<Rightarrow> bool" where
  "is_num_key (KInt i) = True"
| "is_num_key (KBool b) = True"
| "is_num_key _ = False"

fun key_str :: "pykey \<Rightarrow> string" where
  "key_str (KStr s) = s"
| "key_str _ = []"

fun key_num :: "pykey \<Rightarrow> int" where
  "key_num (KInt i) = i"
| "key_num (KBool b) = (if b then 1 else 0)"
| "key_num _ = 0"

definition sorted_items :: "(pykey \<times> 'v) list \<Rightarrow> py_error + (pykey \<times> 'v) list" where
  "sorted_items xs =
     (if length xs \<le> 1 then Inr xs
      else if list_all (\<lambda>kv. is_str_key (fst kv)) xs then Inr (sort_key (\<lambda>kv. key_str (fst kv)) xs)
      else if list_all (\<lambda>kv. is_num_key (fst kv)) xs then Inr (sort_key (\<lambda>kv. key_num (fst kv)) xs)
      else Inl TypeError)"

definition escape_char :: "char \<Rightarrow> string" where
  "escape_char c =
     (if c = CHR 0x22 then [CHR 0x5C, CHR 0x22]
      else if c = CHR 0x5C then [CHR 0x5C, CHR 0x5C]
      else if c = CHR 0x0A then [CHR 0x5C, CHR ''n'']
      else if c = CHR 0x0D then [CHR 0x5C, CHR ''r'']
      else if c = CHR 0x09 then [CHR 0x5C, CHR ''t'']
      else if c = CHR 0x08 then [CHR 0x5C, CHR ''b'']
      else if c = CHR 0x0C then [CHR 0x5C, CHR ''f'']
      else if (of_char c :: nat) < 32 \<or> 126 < (of_char c :: nat) then
        [CHR 0x5C, CHR ''u'', CHR ''0'', CHR ''0'',
         ''0123456789abcdef'' ! ((of_char c :: nat) div 16),
         ''0123456789abcdef'' ! ((of_char c :: nat) mod 16)]
      else [c])"

definition py_encode_basestring_ascii :: "string \<Rightarrow> string" where
  "py_encode_basestring_ascii s = [CHR 0x22] @ concat (map escape_char s) @ [CHR 0x22]"

fun key_to_str :: "pykey \<Rightarrow> string" where
  "key_to_str (KStr s) = s"
| "key_to_str (KBool b) = (if b then ''true'' else ''false'')"
| "key_to_str KNone = ''null''"
| "key_to_str (KInt i) = str_int i"

fun join :: "string \<Rightarrow> string list \<Rightarrow> string" where
  "join sep [] = []"
| "join sep [x] = x"
| "join sep (x # y # ys) = x @ sep @ join sep (y # ys)"

function json_dumps :: "pyval \<Rightarrow> py_error + string" where
  "json_dumps VNone = Inr ''null''"
| "json_dumps (VBool b) = Inr (if b then ''true'' else ''false'')"
| "json_dumps (VInt i) = Inr (str_int i)"
| "json_dumps (VStr s) = Inr (py_encode_basestring_ascii s)"
| "json_dumps (VList xs) =
     (case collect (map json_dumps xs) of
        Inl e \<Rightarrow> Inl e
      | Inr chunks \<Rightarrow> Inr (''['' @ join '', '' chunks @ '']''))"
| "json_dumps (VDict xs) =
     (case sorted_items xs of
        Inl e \<Rightarrow> Inl e
      | Inr items \<Rightarrow>
          (case collect (map (\<lambda>kv. case json_dumps (snd kv) of
                                      Inl e \<Rightarrow> Inl e
                                    | Inr s \<Rightarrow> Inr (py_encode_basestring_ascii (key_to_str (fst kv))
                                                    @ '': '' @ s)) items) of
             Inl e \<Rightarrow> Inl e
           | Inr chunks \<Rightarrow> Inr (''{'' @ join '', '' chunks @ ''}'')))"
  by pat_completeness auto
termination
proof (relation "measure size")
  show "wf (measure size)" by simp
next
  fix xs :: "pyval list" and x
  assume "x \<in> set xs"
  then show "(x, VList xs) \<in> measure size"
    by (induction xs) auto
next
  fix xs items :: "(pykey \<times> pyval) list" and kv
  assume "sorted_items xs = Inr items" and "kv \<in> set items"
  then have "kv \<in> set xs"
    by (auto simp: sorted_items_def split: if_splits)
  then show "(snd kv, VDict xs) \<in> measure size"
    by (induction xs) auto
qed

section \<open>\<open>hashlib.sha256(s.encode()).hexdigest()\<close>\<close>

text \<open>
  \<open>encode\<close> is UTF-8 on code points below 256.  \<open>sha256_hexdigest\<close> is SHA-256 as
  FIPS 180-4 defines it, on bytes, printed as 64 lower-case hexadecimal digits.  The round
  constants (the first 32 bits of the fractional parts of the cube roots of the first 64
  primes) and the initial hash value (the same of the square roots of the first 8 primes)
  are written in decimal.
\<close>

type_synonym byte = "8 word"

definition utf8_char :: "char \<Rightarrow> byte list" where
  "utf8_char c =
     (let n = (of_char c :: nat) in
      if n < 128 then [of_nat n]
      else [of_nat (192 + n div 64), of_nat (128 + n mod 64)])"

definition encode :: "string \<Rightarrow> byte list" where
  "encode s = concat (map utf8_char s)"

definition sha256_k :: "32 word list" where
  "sha256_k =
     [1116352408, 1899447441, 3049323471, 3921009573,
      961987163, 1508970993, 2453635748, 2870763221,
      3624381080, 310598401, 607225278, 1426881987,
      1925078388, 2162078206, 2614888103, 3248222580,
      3835390401, 4022224774, 264347078, 604807628,
      770255983, 1249150122, 1555081692, 1996064986,
      2554220882, 2821834349, 2952996808, 3210313671,
      3336571891, 3584528711, 113926993, 338241895,
      666307205, 773529912, 1294757372, 1396182291,
      1695183700, 1986661051, 2177026350, 2456956037,
      2730485921, 2820302411, 3259730800, 3345764771,
      3516065817, 3600352804, 4094571909, 275423344,
      430227734, 506948616, 659060556, 883997877,
      958139571, 1322822218, 1537002063, 1747873779,
      1955562222, 2024104815, 2227730452, 2361852424,
      2428436474, 2756734187, 3204031479, 3329325298]"

definition sha256_h0 :: "32 word list" where
  "sha256_h0 =
     [1779033703, 3144134277, 1013904242, 2773480762,
      1359893119, 2600822924, 528734635, 1541459225]"

definition ch :: "32 word \<Rightarrow> 32 word \<Rightarrow> 32 word \<Rightarrow> 32 word" where
  "ch x y z = (x AND y) XOR (NOT x AND z)"

definition maj :: "32 word \<Rightarrow> 32 word \<Rightarrow> 32 word \<Rightarrow> 32 word" where
  "maj x y z = (x AND y) XOR (x AND z) XOR (y AND z)"

definition big_sigma0 :: "32 word \<Rightarrow> 32 word" where
  "big_sigma0 x = word_rotr 2 x XOR word_rotr 13 x XOR word_rotr 22 x"

definition big_sigma1 :: "32 word \<Rightarrow> 32 word" where
  "big_sigma1 x = word_rotr 6 x XOR word_rotr 11 x XOR word_rotr 25 x"

definition small_sigma0 :: "32 word \<Rightarrow> 32 word" where
  "small_sigma0 x = word_rotr 7 x XOR word_rotr 18 x XOR drop_bit 3 x"

definition small_sigma1 :: "32 word \<Rightarrow> 32 word" where
  "small_sigma1 x = word_rotr 17 x XOR word_rotr 19 x XOR drop_bit 10 x"

definition sha256_pad :: "byte list \<Rightarrow> byte list" where
  "sha256_pad m =
     m @ [0x80] @ replicate ((119 - length m mod 64) mod 64) 0
       @ map (\<lambda>i. ucast (drop_bit (8 * (7 - i)) (of_nat (8 * length m) :: 64 word))) [0..<8]"

fun chunks :: "nat \<Rightarrow> 'a list \<Rightarrow> 'a list list" where
  "chunks n xs = (if n = 0 \<or> xs = [] then [] else take n xs # chunks n (drop n xs))"

definition be_word :: "byte list \<Rightarrow> 32 word" where
  "be_word bs = foldl (\<lambda>w b. push_bit 8 w OR ucast b) 0 bs"

primrec schedule :: "nat \<Rightarrow> 32 word list \<Rightarrow> 32 word list" where
  "schedule 0 w = w"
| "schedule (Suc n) w =
     schedule n (w @ [small_sigma1 (w ! (length w - 2)) + w ! (length w - 7)
                      + small_sigma0 (w ! (length w - 15)) + w ! (length w - 16)])"

definition sha256_round :: "32 word list \<Rightarrow> 32 word \<times> 32 word \<Rightarrow> 32 word list" where
  "sha256_round s kw =
     (case s of
        [a, b, c, d, e, f, g, h] \<Rightarrow>
          (let t1 = h + big_sigma1 e + ch e f g + fst kw + snd kw;
               t2 = big_sigma0 a + maj a b c
           in [t1 + t2, a, b, c, d + t1, e, f, g])
      | _ \<Rightarrow> s)"

definition sha256_block :: "32 word list \<Rightarrow> byte list \<Rightarrow> 32 word list" where
  "sha256_block hs block =
     map2 (+) hs (foldl sha256_round hs (zip sha256_k (schedule 48 (map be_word (chunks 4 block)))))"

definition hex_word :: "32 word \<Rightarrow> string" where
  "hex_word w = map (\<lambda>i. ''0123456789abcdef'' ! unat (drop_bit (4 * (7 - i)) w AND 15)) [0..<8]"

definition sha256_hexdigest :: "byte list \<Rightarrow> string" where
  "sha256_hexdigest m = concat (map hex_word (foldl sha256_block sha256_h0 (chunks 64 (sha256_pad m))))"

section \<open>QualityAgent\<close>

text \<open>
  Python floats are modelled as exact rationals: the source divides two counts, adds the
  bonus \<open>0.1\<close>, takes a minimum with \<open>1.0\<close> and compares with the threshold \<open>0.7\<close>.
  All methods are \<open>async\<close> and awaited in sequence; \<open>asyncio.gather\<close> returns its
  results in the order of its arguments.
\<close>

record quality_agent =
  qa_agent_id :: string
  agent_type :: string
  verification_threshold :: rat

definition QualityAgent_init :: "string \<Rightarrow> quality_agent" where
  "QualityAgent_init agent_id =
     \<lparr>qa_agent_id = agent_id, agent_type = ''quality'', verification_threshold = 7 / 10\<rparr>"

record hashed_result =
  agent_id :: string
  hash :: string
  result_output :: pyval

record verification = hashed_result +
  timestamp :: rat
  is_valid :: bool
  confidence :: rat

record voting_result =
  majority_hash :: string
  majority_count :: nat
  total_verifiers :: nat
  consensus_strength :: rat
  hash_groups :: "(string \<times> nat) list"
  all_agree :: bool

record quality_verdict =
  verified :: bool
  quality_score :: rat
  verification_details :: voting_result
  verification_count :: nat
  verdict_confidence :: rat

record voting_verdict =
  subtask_id :: "string option"
  voting_verified :: bool
  voting_confidence :: rat
  voting_details :: voting_result
  result_count :: nat

definition hash_result :: "pyval \<Rightarrow> py_error + string" where
  "hash_result result =
     (case json_dumps result of
        Inl e \<Rightarrow> Inl e
      | Inr result_str \<Rightarrow> Inr (sha256_hexdigest (encode result_str)))"

text \<open>\<open>clock i\<close> is the value \<open>time.time()\<close> returns to verifier \<open>i\<close>.\<close>

definition verify_with_agent :: "(int \<Rightarrow> rat) \<Rightarrow> pyval \<Rightarrow> int \<Rightarrow> py_error + verification" where
  "verify_with_agent clock result i =
     (case hash_result result of
        Inl e \<Rightarrow> Inl e
      | Inr result_hash \<Rightarrow>
          (let valid = (length result_hash > 0) in
           Inr \<lparr>agent_id = ''verifier-'' @ str_int i,
                hash = result_hash,
                result_output = result,
                timestamp = clock i,
                is_valid = valid,
                confidence = (if valid then 9 / 10 else 1 / 10)\<rparr>))"

definition multi_agent_verification ::
  "(int \<Rightarrow> rat) \<Rightarrow> pyval \<Rightarrow> int \<Rightarrow> py_error + verification list" where
  "multi_agent_verification clock result num_verifiers =
     collect (map (verify_with_agent clock result) (range_py num_verifiers))"

text \<open>
  \<open>hash_groups\<close> is a dict from hash to the list of verifications with that hash, kept
  as the list of its items in insertion order.  One round of the grouping loop: a new
  hash gets an empty list at the end of the dict, then the verification is appended to
  the list stored under its hash.
\<close>

definition group_step ::
  "(string \<times> 'a hashed_result_scheme list) list \<Rightarrow> 'a hashed_result_scheme
     \<Rightarrow> (string \<times> 'a hashed_result_scheme list) list" where
  "group_step groups verification =
     (let result_hash = hash verification;
          groups' = (if result_hash \<notin> set (map fst groups) then groups @ [(result_hash, [])]
                     else groups)
      in map (\<lambda>(h, g). if h = result_hash then (h, g @ [verification]) else (h, g)) groups')"

text \<open>\<open>d[k]\<close> for a key \<open>k\<close> taken from the dict \<open>d\<close> itself.\<close>

definition dict_at :: "('k \<times> 'v list) list \<Rightarrow> 'k \<Rightarrow> 'v list" where
  "dict_at d k = (case map_of d k of Some v \<Rightarrow> v | None \<Rightarrow> [])"

text \<open>
  \<open>max(xs, key=f)\<close>: \<open>ValueError\<close> on an empty sequence; otherwise the first element
  whose key is maximal, since a later element replaces the current one only when its key
  is strictly greater.
\<close>

fun py_max :: "('a \<Rightarrow> nat) \<Rightarrow> 'a list \<Rightarrow> py_error + 'a" where
  "py_max f [] = Inl ValueError"
| "py_max f (x # xs) = Inr (foldl (\<lambda>best y. if f y > f best then y else best) x xs)"

definition apply_voting :: "pyval \<Rightarrow> 'a hashed_result_scheme list \<Rightarrow> py_error + voting_result" where
  "apply_voting original_result verification_results =
     (let groups = foldl group_step [] verification_results in
      case py_max (\<lambda>h. length (dict_at groups h)) (map fst groups) of
        Inl e \<Rightarrow> Inl e
      | Inr m \<Rightarrow>
          (let count = length (dict_at groups m);
               total_count = length verification_results
           in if total_count = 0 then Inl ZeroDivisionError
              else Inr \<lparr>majority_hash = m,
                        majority_count = count,
                        total_verifiers = total_count,
                        consensus_strength = of_nat count / of_nat total_count,
                        hash_groups = map (\<lambda>(h, g). (h, length g)) groups,
                        all_agree = (length groups = 1)\<rparr>))"

definition calculate_quality_score :: "voting_result \<Rightarrow> rat" where
  "calculate_quality_score verified_result =
     (let bonus = (if all_agree verified_result then 1 / 10 else 0)
      in min 1 (consensus_strength verified_result + bonus))"

text \<open>The dict \<open>verify\<close> returns, from the voting result and the number of verifications.\<close>

definition verify_verdict :: "quality_agent \<Rightarrow> voting_result \<Rightarrow> nat \<Rightarrow> quality_verdict" where
  "verify_verdict self verified_result n =
     (let score = calculate_quality_score verified_result in
      \<lparr>verified = (score \<ge> verification_threshold self),
       quality_score = score,
       verification_details = verified_result,
       verification_count = n,
       verdict_confidence = score\<rparr>)"

definition verify :: "quality_agent \<Rightarrow> (int \<Rightarrow> rat) \<Rightarrow> pyval \<Rightarrow> py_error + quality_verdict" where
  "verify self clock result =
     (case multi_agent_verification clock result 3 of
        Inl e \<Rightarrow> Inl e
      | Inr verification_results \<Rightarrow>
          (case apply_voting result verification_results of
             Inl e \<Rightarrow> Inl e
           | Inr verified_result \<Rightarrow>
               Inr (verify_verdict self verified_result (length verification_results))))"

text \<open>
  The loop of \<open>verify_with_voting\<close> over \<open>enumerate(results)\<close>.  In
  \<open>verify_with_voting\<close> the argument \<open>subtask\<close> stands for \<open>subtask.get("id")\<close>, the only
  part of the subtask the method returns.
\<close>

fun hash_all :: "nat \<Rightarrow> pyval list \<Rightarrow> py_error + hashed_result list" where
  "hash_all idx [] = Inr []"
| "hash_all idx (r # rs) =
     (case hash_result r of
        Inl e \<Rightarrow> Inl e
      | Inr result_hash \<Rightarrow>
          (case hash_all (Suc idx) rs of
             Inl e \<Rightarrow> Inl e
           | Inr hs \<Rightarrow>
               Inr (\<lparr>agent_id = ''agent-'' @ str_int (int idx), hash = result_hash, result_output = r\<rparr>
                    # hs)))"

definition verify_with_voting ::
  "quality_agent \<Rightarrow> string option \<Rightarrow> pyval list \<Rightarrow> py_error + voting_verdict" where
  "verify_with_voting self subtask results =
     (case hash_all 0 results of
        Inl e \<Rightarrow> Inl e
      | Inr hashed_results \<Rightarrow>
          (case apply_voting (case results of [] \<Rightarrow> VDict [] | r # _ \<Rightarrow> r) hashed_results of
             Inl e \<Rightarrow> Inl e
           | Inr v \<Rightarrow>
               Inr \<lparr>subtask_id = subtask,
                    voting_verified = (consensus_strength v \<ge> verification_threshold self),
                    voting_confidence = consensus_strength v,
                    voting_details = v,
                    result_count = length results\<rparr>))"

section \<open>MAKEROrchestrator: voting\<close>

text \<open>
  The orchestrator's state is its reputation ledger and whether a Hydra client is set
  (\<open>tasks\<close> is never written or read by the methods below).  \<open>_record_votes_hydra\<close>
  only writes to the log, so it does not appear.  \<open>results_str\<close> is the text
  \<open>str(results)\<close> of the results voted on.  Weights and strengths are exact rationals,
  the threshold \<open>0.66\<close> is \<open>66/100\<close>.
\<close>

record orchestrator =
  hydra_client :: bool
  reputation_scores :: "string \<rightharpoonup> int"

definition MAKEROrchestrator_init :: "bool \<Rightarrow> orchestrator" where
  "MAKEROrchestrator_init client = \<lparr>hydra_client = client, reputation_scores = Map.empty\<rparr>"

definition update_reputation :: "orchestrator \<Rightarrow> string \<Rightarrow> int \<Rightarrow> orchestrator" where
  "update_reputation self agent score =
     self\<lparr>reputation_scores := (reputation_scores self)(agent \<mapsto> max 0 (min 100 score))\<rparr>"

record ballot =
  voter_id :: string
  result_hash :: string
  vote_choice :: string
  reputation :: int
  weight :: rat

record consensus =
  strength :: rat
  consensus_result :: string
  approve_votes :: "nat option"
  consensus_total_votes :: "nat option"

record vote_outcome =
  total_votes :: nat
  vote_consensus :: consensus
  vote_consensus_strength :: rat
  voting_method :: string
  votes :: "ballot list"

definition generate_vote :: "orchestrator \<Rightarrow> string \<Rightarrow> int \<Rightarrow> ballot" where
  "generate_vote self results_str i =
     (let digest = sha256_hexdigest (encode results_str);
          rep = (case reputation_scores self (''voter-'' @ str_int i) of
                   None \<Rightarrow> 50
                 | Some r \<Rightarrow> r)
      in \<lparr>voter_id = ''voter-'' @ str_int i,
          result_hash = take 16 digest,
          vote_choice = ''approve'',
          reputation = rep,
          weight = of_int rep / 100\<rparr>)"

definition calculate_consensus :: "ballot list \<Rightarrow> consensus" where
  "calculate_consensus vs =
     (if vs = [] then
        \<lparr>strength = 0, consensus_result = ''no_consensus'',
         approve_votes = None, consensus_total_votes = None\<rparr>
      else
        (let total_weight = sum_list (map weight vs);
             approve_weight = sum_list (map weight (filter (\<lambda>v. vote_choice v = ''approve'') vs));
             s = (if total_weight > 0 then approve_weight / total_weight else 0)
         in \<lparr>strength = s,
             consensus_result = (if s \<ge> 66 / 100 then ''approved'' else ''rejected''),
             approve_votes = Some (length (filter (\<lambda>v. vote_choice v = ''approve'') vs)),
             consensus_total_votes = Some (length vs)\<rparr>))"

definition vote :: "orchestrator \<Rightarrow> string \<Rightarrow> int \<Rightarrow> bool \<Rightarrow> vote_outcome" where
  "vote self results_str num_voters use_hydra =
     (let vs = map (generate_vote self results_str) (range_py num_voters);
          c = calculate_consensus vs
      in \<lparr>total_votes = length vs,
          vote_consensus = c,
          vote_consensus_strength = strength c,
          voting_method = (if use_hydra then ''hydra'' else ''local''),
          votes = vs\<rparr>)"

section \<open>Notions used to state the properties\<close>




text \<open>
  The distinct elements of a sequence in the order of their first occurrence: the
  iteration order of a dict whose keys were inserted in the order of the sequence.
\<close>

definition first_occurrences :: "'a list \<Rightarrow> 'a list" where
  "first_occurrences xs = rev (remdups (rev xs))"

text \<open>
  The orchestrator after a sequence of \<open>update_reputation\<close> calls on a new one: the
  states the reputation ledger can be in.
\<close>

definition orchestrator_after :: "bool \<Rightarrow> (string \<times> int) list \<Rightarrow> orchestrator" where
  "orchestrator_after client updates =
     foldl (\<lambda>self u. update_reputation self (fst u) (snd u)) (MAKEROrchestrator_init client) updates"

section \<open>Properties of decompose\<close>

lemma collect_map_Inr:
  assumes "\<And>x. x \<in> set xs \<Longrightarrow> \<exists>y. f x = Inr y \<and> P y"
  shows "\<exists>ys. collect (map f xs) = Inr ys \<and> length ys = length xs \<and> (\<forall>y\<in>set ys. P y)"
  using assms
proof (induction xs)
  case Nil
  then show ?case by simp
next
  case (Cons x xs)
  from Cons.prems obtain y where y: "f x = Inr y" "P y" by auto
  from Cons obtain ys where ys: "collect (map f xs) = Inr ys" "length ys = length xs" "\<forall>y\<in>set ys. P y"
    by auto
  show ?case using y ys by simp
qed

lemma length_range_py: "length (range_py n) = nat n"
  by (simp add: range_py_def)

lemma range_py_nonempty: "x \<in> set (range_py n) \<Longrightarrow> 1 \<le> n"
  by (auto simp: range_py_def)

lemma decompose_subtask_shape:
  assumes "major_components * sub_count \<noteq> 0"
  shows "\<exists>s. decompose_subtask decomposition_level max_depth major_components sub_count i j = Inr s
           \<and> length (steps s) =
               (if max_depth > 2 then nat (min (decomposition_level div (major_components * sub_count)) 10) else 0)"
  using assms
  by (simp add: decompose_subtask_def floordiv_def decompose_steps_def length_range_py)

lemma decompose_component_shape:
  assumes "1 \<le> major_components"
  shows "\<exists>c. decompose_component task decomposition_level max_depth major_components i = Inr c
           \<and> length (subtasks c) =
               (if max_depth > 1 then nat (min (decomposition_level div major_components) 20) else 0)
           \<and> (\<forall>s\<in>set (subtasks c). length (steps s) =
               (if max_depth > 2
                then nat (min (decomposition_level div
                    (major_components * min (decomposition_level div major_components) 20)) 10)
                else 0))"
proof (cases "max_depth > 1")
  case False
  then show ?thesis by (simp add: decompose_component_def)
next
  case True
  let ?sc = "min (decomposition_level div major_components) 20"
  let ?P = "\<lambda>s. length (steps s) =
               (if max_depth > 2 then nat (min (decomposition_level div (major_components * ?sc)) 10) else 0)"
  have "\<And>j. j \<in> set (range_py ?sc) \<Longrightarrow>
      \<exists>s. decompose_subtask decomposition_level max_depth major_components ?sc i j = Inr s \<and> ?P s"
  proof -
    fix j assume "j \<in> set (range_py ?sc)"
    then have "1 \<le> ?sc" by (rule range_py_nonempty)
    with assms have "major_components * ?sc \<noteq> 0" by simp
    then show "\<exists>s. decompose_subtask decomposition_level max_depth major_components ?sc i j = Inr s \<and> ?P s"
      by (rule decompose_subtask_shape)
  qed
  then obtain subs where subs:
    "collect (map (decompose_subtask decomposition_level max_depth major_components ?sc i) (range_py ?sc)) = Inr subs"
    "length subs = length (range_py ?sc)" "\<forall>s\<in>set subs. ?P s"
    using collect_map_Inr [of "range_py ?sc" "decompose_subtask decomposition_level max_depth major_components ?sc i" ?P]
    by blast
  from assms have "major_components \<noteq> 0" by simp
  with True subs show ?thesis
    by (simp add: decompose_component_def floordiv_def Let_def length_range_py)
qed

lemma decompose_shape:
  "\<exists>d. decompose task decomposition_level max_depth = Inr d
       \<and> original_task d = task \<and> status d = ''decomposed''
       \<and> total_steps d = sum_list (map component_steps (components d))
       \<and> length (components d) = nat (min (decomposition_level div 10) 10)
       \<and> (\<forall>c\<in>set (components d).
            length (subtasks c) =
               (if max_depth > 1
                then nat (min (decomposition_level div min (decomposition_level div 10) 10) 20) else 0)
            \<and> (\<forall>s\<in>set (subtasks c). length (steps s) =
               (if max_depth > 2
                then nat (min (decomposition_level div
                    (min (decomposition_level div 10) 10 *
                     min (decomposition_level div min (decomposition_level div 10) 10) 20)) 10)
                else 0)))"
proof -
  let ?mc = "min (decomposition_level div 10) 10"
  let ?P = "\<lambda>c. length (subtasks c) =
               (if max_depth > 1 then nat (min (decomposition_level div ?mc) 20) else 0)
            \<and> (\<forall>s\<in>set (subtasks c). length (steps s) =
               (if max_depth > 2
                then nat (min (decomposition_level div (?mc * min (decomposition_level div ?mc) 20)) 10)
                else 0))"
  have "\<And>i. i \<in> set (range_py ?mc) \<Longrightarrow>
      \<exists>c. decompose_component task decomposition_level max_depth ?mc i = Inr c \<and> ?P c"
  proof -
    fix i assume "i \<in> set (range_py ?mc)"
    then have "1 \<le> ?mc" by (rule range_py_nonempty)
    then show "\<exists>c. decompose_component task decomposition_level max_depth ?mc i = Inr c \<and> ?P c"
      using decompose_component_shape [of ?mc task decomposition_level max_depth i] by blast
  qed
  then obtain comps where comps:
    "collect (map (decompose_component task decomposition_level max_depth ?mc) (range_py ?mc)) = Inr comps"
    "length comps = length (range_py ?mc)" "\<forall>c\<in>set comps. ?P c"
    using collect_map_Inr [of "range_py ?mc" "decompose_component task decomposition_level max_depth ?mc" ?P]
    by blast
  then show ?thesis
    by (simp add: decompose_def Let_def length_range_py)
qed

lemma sum_list_const:
  assumes "\<forall>x\<in>set xs. f x = (k::int)"
  shows "sum_list (map f xs) = int (length xs) * k"
  using assms by (induction xs) (simp_all add: algebra_simps)

lemma component_steps_shape:
  assumes "length (subtasks c) = Suc n" and "\<forall>s\<in>set (subtasks c). length (steps s) = m"
  shows "component_steps c = int (Suc n) * int m"
proof (cases "subtasks c")
  case Nil
  with assms show ?thesis by simp
next
  case (Cons s ss)
  with assms have "length (steps s) = m" by simp
  with Cons assms(1) show ?thesis by (simp add: component_steps_def)
qed

text \<open>
  Claim C3, as stated, fails: with \<open>target_subtask_count = 5\<close> and \<open>max_depth = 3\<close> the
  component count is \<open>min (5 // 10) 10 = 0\<close> and the tree is empty.
\<close>

theorem C3_counterexample:
  "decompose ''task'' 5 3 =
     Inr \<lparr>original_task = ''task'', task_decomposition_level = 5, task_max_depth = 3,
          components = [], total_steps = 0, status = ''decomposed''\<rparr>"
  by (simp add: decompose_def range_py_def)

text \<open>
  Claim C3 (amended): for every \<open>target_subtask_count\<close> and \<open>max_depth\<close>, \<open>decompose\<close>
  returns a tree (it never raises) whose number of components is
  \<open>min (target_subtask_count // 10) 10\<close>, or zero when that is negative; the tree has at
  least one component exactly when \<open>target_subtask_count \<ge> 10\<close>.
\<close>

theorem C3_component_count:
  "\<exists>d. decompose task decomposition_level max_depth = Inr d
       \<and> int (length (components d)) = max 0 (min (decomposition_level div 10) 10)
       \<and> (components d \<noteq> [] \<longleftrightarrow> 10 \<le> decomposition_level)"
proof -
  obtain d where d: "decompose task decomposition_level max_depth = Inr d"
    "length (components d) = nat (min (decomposition_level div 10) 10)"
    using decompose_shape [of task decomposition_level max_depth] by blast
  have "components d \<noteq> [] \<longleftrightarrow> 0 < length (components d)" by simp
  also have "\<dots> \<longleftrightarrow> 10 \<le> decomposition_level" using d(2) by auto
  finally show ?thesis using d by auto
qed

theorem C3_component_count_witness:
  "\<exists>d. decompose ''task'' 10 1 = Inr d \<and> length (components d) = 1 \<and> components d \<noteq> []"
  using C3_component_count [of "''task''" 10 1] by auto

text \<open>
  Claim C5: \<open>decompose(task, 1000, 3)\<close> yields exactly 10 components, each with exactly 20
  subtasks, each subtask with exactly 5 steps, and reports 1000 total steps; and for every
  input the widths stay within the caps: at most 10 components, at most 20 subtasks per
  component, at most 10 steps per subtask.
\<close>

theorem C5_decomposition_bound:
  "(\<exists>d. decompose task 1000 3 = Inr d
        \<and> length (components d) = 10
        \<and> (\<forall>c\<in>set (components d). length (subtasks c) = 20
              \<and> (\<forall>s\<in>set (subtasks c). length (steps s) = 5))
        \<and> total_steps d = 1000)
   \<and> (\<exists>d. decompose task decomposition_level max_depth = Inr d
        \<and> length (components d) \<le> 10
        \<and> (\<forall>c\<in>set (components d). length (subtasks c) \<le> 20
              \<and> (\<forall>s\<in>set (subtasks c). length (steps s) \<le> 10)))"
proof
  obtain d where d: "decompose task 1000 3 = Inr d"
    "total_steps d = sum_list (map component_steps (components d))"
    "length (components d) = 10"
    "\<forall>c\<in>set (components d). length (subtasks c) = 20
        \<and> (\<forall>s\<in>set (subtasks c). length (steps s) = 5)"
    using decompose_shape [of task 1000 3] by auto
  have "\<forall>c\<in>set (components d). component_steps c = 100"
  proof
    fix c assume "c \<in> set (components d)"
    with d(4) have "length (subtasks c) = Suc 19" "\<forall>s\<in>set (subtasks c). length (steps s) = 5"
      by simp_all
    then show "component_steps c = 100"
      using component_steps_shape [of c 19 5] by simp
  qed
  then have "sum_list (map component_steps (components d)) = int (length (components d)) * 100"
    by (rule sum_list_const)
  with d show "\<exists>d. decompose task 1000 3 = Inr d
        \<and> length (components d) = 10
        \<and> (\<forall>c\<in>set (components d). length (subtasks c) = 20
              \<and> (\<forall>s\<in>set (subtasks c). length (steps s) = 5))
        \<and> total_steps d = 1000"
    by simp
next
  obtain d where d: "decompose task decomposition_level max_depth = Inr d"
    "length (components d) = nat (min (decomposition_level div 10) 10)"
    "\<forall>c\<in>set (components d).
            length (subtasks c) =
               (if max_depth > 1
                then nat (min (decomposition_level div min (decomposition_level div 10) 10) 20) else 0)
            \<and> (\<forall>s\<in>set (subtasks c). length (steps s) =
               (if max_depth > 2
                then nat (min (decomposition_level div
                    (min (decomposition_level div 10) 10 *
                     min (decomposition_level div min (decomposition_level div 10) 10) 20)) 10)
                else 0))"
    using decompose_shape [of task decomposition_level max_depth] by blast
  have "length (components d) \<le> 10" using d(2) by (auto simp: min_def)
  moreover have "\<forall>c\<in>set (components d). length (subtasks c) \<le> 20
              \<and> (\<forall>s\<in>set (subtasks c). length (steps s) \<le> 10)"
  proof
    fix c assume "c \<in> set (components d)"
    with d(3) have c: "length (subtasks c) =
               (if max_depth > 1
                then nat (min (decomposition_level div min (decomposition_level div 10) 10) 20) else 0)"
      "\<forall>s\<in>set (subtasks c). length (steps s) =
               (if max_depth > 2
                then nat (min (decomposition_level div
                    (min (decomposition_level div 10) 10 *
                     min (decomposition_level div min (decomposition_level div 10) 10) 20)) 10)
                else 0)"
      by simp_all
    have "length (subtasks c) \<le> 20" using c(1) by (auto simp: min_def)
    moreover have "\<forall>s\<in>set (subtasks c). length (steps s) \<le> 10"
      using c(2) by (auto simp: min_def)
    ultimately show "length (subtasks c) \<le> 20
              \<and> (\<forall>s\<in>set (subtasks c). length (steps s) \<le> 10)" by simp
  qed
  ultimately show "\<exists>d. decompose task decomposition_level max_depth = Inr d
        \<and> length (components d) \<le> 10
        \<and> (\<forall>c\<in>set (components d). length (subtasks c) \<le> 20
              \<and> (\<forall>s\<in>set (subtasks c). length (steps s) \<le> 10))"
    using d(1) by blast
qed

theorem C5_decomposition_bound_witness:
  "\<exists>d c s. decompose ''build a house'' 1000 3 = Inr d
       \<and> c \<in> set (components d) \<and> s \<in> set (subtasks c)
       \<and> length (components d) = 10 \<and> length (subtasks c) = 20 \<and> length (steps s) = 5
       \<and> total_steps d = 1000"
proof -
  obtain d where d: "decompose ''build a house'' 1000 3 = Inr d"
    "length (components d) = 10"
    "\<forall>c\<in>set (components d). length (subtasks c) = 20
        \<and> (\<forall>s\<in>set (subtasks c). length (steps s) = 5)"
    "total_steps d = 1000"
    using C5_decomposition_bound [of "''build a house''" 1000 3] by blast
  from d(2) obtain c where c: "c \<in> set (components d)"
    by (cases "components d") auto
  with d(3) have c20: "length (subtasks c) = 20"
    and c5: "\<forall>s\<in>set (subtasks c). length (steps s) = 5" by simp_all
  from c20 obtain s where s: "s \<in> set (subtasks c)"
    by (cases "subtasks c") auto
  with c5 have "length (steps s) = 5" by simp
  with d c c20 s show ?thesis by blast
qed

text \<open>
  Claim C7, as stated, fails: no validation and no DecompositionError exist in the code.
  With \<open>target_subtask_count = 0\<close> the call returns an (empty) tree with status
  \<open>decomposed\<close>.
\<close>

theorem C7_counterexample:
  "decompose ''task'' 0 3 =
     Inr \<lparr>original_task = ''task'', task_decomposition_level = 0, task_max_depth = 3,
          components = [], total_steps = 0, status = ''decomposed''\<rparr>"
  by (simp add: decompose_def range_py_def)

text \<open>
  Claim C7 (amended): for every invalid configuration, \<open>target_subtask_count < 1\<close> or
  \<open>max_depth < 1\<close>, \<open>decompose\<close> does not fail; it returns a tree with status
  \<open>decomposed\<close>.  With \<open>target_subtask_count < 1\<close> the tree has no components and zero
  total steps; with \<open>max_depth < 1\<close> no component has a subtask.
\<close>

theorem C7_invalid_configuration:
  assumes "decomposition_level < 1 \<or> max_depth < 1"
  shows "\<exists>d. decompose task decomposition_level max_depth = Inr d
           \<and> status d = ''decomposed''
           \<and> (decomposition_level < 1 \<longrightarrow> components d = [] \<and> total_steps d = 0)
           \<and> (max_depth < 1 \<longrightarrow> (\<forall>c\<in>set (components d). subtasks c = []))"
proof -
  obtain d where d: "decompose task decomposition_level max_depth = Inr d"
    "status d = ''decomposed''"
    "total_steps d = sum_list (map component_steps (components d))"
    "length (components d) = nat (min (decomposition_level div 10) 10)"
    "\<forall>c\<in>set (components d).
            length (subtasks c) =
               (if max_depth > 1
                then nat (min (decomposition_level div min (decomposition_level div 10) 10) 20) else 0)"
    using decompose_shape [of task decomposition_level max_depth] by blast
  have "decomposition_level < 1 \<longrightarrow> components d = [] \<and> total_steps d = 0"
  proof
    assume "decomposition_level < 1"
    then have "length (components d) = 0" using d(4) by simp
    then show "components d = [] \<and> total_steps d = 0" using d(3) by simp
  qed
  moreover have "max_depth < 1 \<longrightarrow> (\<forall>c\<in>set (components d). subtasks c = [])"
    using d(5) by auto
  ultimately show ?thesis using d(1,2) by blast
qed

theorem C7_invalid_configuration_witness:
  "((0::int) < 1 \<or> (3::int) < 1) \<and> ((20::int) < 1 \<or> (0::int) < 1)
   \<and> (\<exists>d. decompose ''task'' 0 3 = Inr d \<and> components d = [] \<and> total_steps d = 0)
   \<and> (\<exists>d c. decompose ''task'' 20 0 = Inr d \<and> c \<in> set (components d) \<and> subtasks c = [])"
proof -
  have h1: "(0::int) < 1 \<or> (3::int) < 1" and h2: "(20::int) < 1 \<or> (0::int) < 1" by simp_all
  have a: "\<exists>d. decompose ''task'' 0 3 = Inr d \<and> components d = [] \<and> total_steps d = 0"
    using C7_invalid_configuration [OF h1, of "''task''"] by auto
  obtain d where d: "decompose ''task'' 20 0 = Inr d"
    "\<forall>c\<in>set (components d). subtasks c = []"
    using C7_invalid_configuration [OF h2, of "''task''"] by auto
  obtain d' where d': "decompose ''task'' 20 0 = Inr d'" "length (components d') = 2"
    using decompose_shape [of "''task''" 20 0] by auto
  with d have "length (components d) = 2" by simp
  then obtain c where "c \<in> set (components d)" by (cases "components d") auto
  with d have "\<exists>d c. decompose ''task'' 20 0 = Inr d \<and> c \<in> set (components d) \<and> subtasks c = []"
    by blast
  with a h1 h2 show ?thesis by blast
qed

section \<open>Properties of the fingerprint\<close>






lemma collect_cong_map:
  assumes "map f xs = map g ys"
  shows "collect (map f xs) = collect (map g ys)"
  using assms by simp



lemma sha256_abc:
  "sha256_hexdigest (encode ''abc'') =
     ''ba7816bf8f01cfea414140de5dae2223b00361a396177a9cb410ff61f20015ad''"
  by code_simp




section \<open>Properties of QualityAgent voting\<close>

lemma first_occurrences_snoc:
  "first_occurrences (xs @ [x]) =
     (if x \<in> set xs then first_occurrences xs else first_occurrences xs @ [x])"
  by (simp add: first_occurrences_def)

lemma set_first_occurrences: "set (first_occurrences xs) = set xs"
  by (simp add: first_occurrences_def)

lemma distinct_first_occurrences: "distinct (first_occurrences xs)"
  by (simp add: first_occurrences_def)

lemma length_first_occurrences: "length (first_occurrences xs) = card (set xs)"
proof -
  have "length (remdups (rev xs)) = card (set (rev xs))" by (rule length_remdups_card_conv)
  then show ?thesis by (simp add: first_occurrences_def)
qed

lemma group_step_keys:
  "map fst (group_step groups v) =
     (if hash v \<in> set (map fst groups) then map fst groups else map fst groups @ [hash v])"
  by (auto simp: group_step_def Let_def case_prod_beta)

lemma group_step_member:
  assumes "(k, g') \<in> set (group_step groups v)"
  shows "(\<exists>g. (k, g) \<in> set groups \<and> g' = (if k = hash v then g @ [v] else g))
         \<or> (k = hash v \<and> hash v \<notin> set (map fst groups) \<and> g' = [v])"
  using assms by (auto simp: group_step_def Let_def split: if_splits)

lemma groups_foldl:
  "map fst (foldl group_step [] vs) = first_occurrences (map hash vs)
   \<and> (\<forall>k g. (k, g) \<in> set (foldl group_step [] vs) \<longrightarrow> g = filter (\<lambda>v. hash v = k) vs)"
proof (induction vs rule: rev_induct)
  case Nil
  then show ?case by (simp add: first_occurrences_def)
next
  case (snoc v vs)
  let ?gs = "foldl group_step [] vs"
  from snoc have keys: "map fst ?gs = first_occurrences (map hash vs)"
    and mem: "\<And>k g. (k, g) \<in> set ?gs \<Longrightarrow> g = filter (\<lambda>v. hash v = k) vs" by blast+
  have kset: "set (map fst ?gs) = set (map hash vs)"
    using keys by (simp only: set_first_occurrences)
  have "map fst (foldl group_step [] (vs @ [v])) = first_occurrences (map hash (vs @ [v]))"
    using keys kset by (simp add: group_step_keys first_occurrences_snoc)
  moreover have "g' = filter (\<lambda>x. hash x = k) (vs @ [v])"
    if "(k, g') \<in> set (foldl group_step [] (vs @ [v]))" for k g'
  proof -
    from that have "(k, g') \<in> set (group_step ?gs v)" by simp
    then consider (old) g where "(k, g) \<in> set ?gs" "g' = (if k = hash v then g @ [v] else g)"
      | (new) "k = hash v" "hash v \<notin> set (map fst ?gs)" "g' = [v]"
      using group_step_member by blast
    then show ?thesis
    proof cases
      case old
      with mem [of k g] show ?thesis by auto
    next
      case new
      from new(2) kset have notin: "hash v \<notin> hash ` set vs" by simp
      have "hash x \<noteq> hash v" if "x \<in> set vs" for x
      proof
        assume "hash x = hash v"
        with that have "hash v \<in> hash ` set vs" by (metis imageI)
        with notin show False by simp
      qed
      then have "filter (\<lambda>x. hash x = hash v) vs = []" by (simp add: filter_empty_conv)
      with new show ?thesis by simp
    qed
  qed
  ultimately show ?case by blast
qed

lemma dict_at_groups:
  assumes "k \<in> set (map hash vs)"
  shows "dict_at (foldl group_step [] vs) k = filter (\<lambda>v. hash v = k) vs"
proof -
  let ?gs = "foldl group_step [] vs"
  from groups_foldl [of vs] have keys: "map fst ?gs = first_occurrences (map hash vs)"
    and mem: "\<And>k g. (k, g) \<in> set ?gs \<Longrightarrow> g = filter (\<lambda>v. hash v = k) vs" by blast+
  from assms keys have "k \<in> set (map fst ?gs)" by (simp only: set_first_occurrences)
  then obtain g where g: "(k, g) \<in> set ?gs" by auto
  from keys have "distinct (map fst ?gs)" by (simp only: distinct_first_occurrences)
  with g have "map_of ?gs k = Some g" by simp
  with mem [OF g] show ?thesis by (simp add: dict_at_def)
qed

lemma foldl_first_max:
  fixes f :: "'a \<Rightarrow> nat"
  assumes "\<forall>y\<in>set pre. f y < f best" and "\<forall>y\<in>set mid. f y \<le> f best"
  shows "\<exists>pre' post. pre @ best # mid @ ys
            = pre' @ foldl (\<lambda>best y. if f y > f best then y else best) best ys # post
         \<and> (\<forall>y\<in>set pre'. f y < f (foldl (\<lambda>best y. if f y > f best then y else best) best ys))
         \<and> (\<forall>y\<in>set post. f y \<le> f (foldl (\<lambda>best y. if f y > f best then y else best) best ys))"
  using assms
proof (induction ys arbitrary: pre best mid)
  case Nil
  show ?case
    using Nil by (intro exI [of _ pre] exI [of _ mid]) simp
next
  case (Cons y ys)
  let ?step = "\<lambda>best y. if f y > f best then y else best"
  show ?case
  proof (cases "f y > f best")
    case True
    have eq: "foldl ?step best (y # ys) = foldl ?step y ys" using True by simp
    have "\<forall>z\<in>set (pre @ best # mid). f z < f y"
    proof
      fix z assume "z \<in> set (pre @ best # mid)"
      then consider "z \<in> set pre" | "z = best" | "z \<in> set mid" by auto
      then show "f z < f y"
      proof cases
        case 1
        with Cons.prems(1) have "f z < f best" by blast
        with True show ?thesis by linarith
      next
        case 2
        with True show ?thesis by simp
      next
        case 3
        with Cons.prems(2) have "f z \<le> f best" by blast
        with True show ?thesis by linarith
      qed
    qed
    moreover have "\<forall>z\<in>set []. f z \<le> f y" by simp
    ultimately obtain pre' post where p:
      "(pre @ best # mid) @ y # [] @ ys = pre' @ foldl ?step y ys # post"
      "\<forall>z\<in>set pre'. f z < f (foldl ?step y ys)"
      "\<forall>z\<in>set post. f z \<le> f (foldl ?step y ys)"
      using Cons.IH [of "pre @ best # mid" y "[]"] by blast
    from p(1) have "pre @ best # mid @ y # ys = pre' @ foldl ?step y ys # post" by simp
    with p(2,3) show ?thesis unfolding eq by blast
  next
    case False
    have eq: "foldl ?step best (y # ys) = foldl ?step best ys" using False by simp
    have "\<forall>z\<in>set (mid @ [y]). f z \<le> f best" using Cons.prems(2) False by auto
    with Cons.prems(1) obtain pre' post where p:
      "pre @ best # (mid @ [y]) @ ys = pre' @ foldl ?step best ys # post"
      "\<forall>z\<in>set pre'. f z < f (foldl ?step best ys)"
      "\<forall>z\<in>set post. f z \<le> f (foldl ?step best ys)"
      using Cons.IH [of pre best "mid @ [y]"] by blast
    from p(1) have "pre @ best # mid @ y # ys = pre' @ foldl ?step best ys # post" by simp
    with p(2,3) show ?thesis unfolding eq by blast
  qed
qed

lemma py_max_first_max:
  fixes f :: "'a \<Rightarrow> nat"
  assumes "xs \<noteq> []"
  shows "\<exists>m pre post. py_max f xs = Inr m \<and> xs = pre @ m # post
           \<and> (\<forall>y\<in>set pre. f y < f m) \<and> (\<forall>y\<in>set post. f y \<le> f m)"
proof -
  let ?step = "\<lambda>best y. if f y > f best then y else best"
  from assms obtain x ys where xs: "xs = x # ys" by (cases xs) auto
  have "\<forall>y\<in>set []. f y < f x" "\<forall>y\<in>set []. f y \<le> f x" by simp_all
  from foldl_first_max [OF this, of ys] obtain pre post where p:
    "[] @ x # [] @ ys = pre @ foldl ?step x ys # post"
    "\<forall>y\<in>set pre. f y < f (foldl ?step x ys)"
    "\<forall>y\<in>set post. f y \<le> f (foldl ?step x ys)"
    by blast
  from p(1) have "x # ys = pre @ foldl ?step x ys # post" by simp
  moreover have "py_max f (x # ys) = Inr (foldl ?step x ys)" by simp
  ultimately show ?thesis unfolding xs using p(2,3) by blast
qed

lemma range_py_3: "range_py 3 = [0, 1, 2]"
proof -
  have "[0..<3] = [0, 1, 2]" by (simp add: upt_rec)
  then show ?thesis by (simp add: range_py_def)
qed

lemma multi_agent_verification_3:
  assumes "json_dumps result = Inr s"
  shows "multi_agent_verification clock result 3 =
           Inr (map (\<lambda>i. \<lparr>agent_id = ''verifier-'' @ str_int i,
                           hash = sha256_hexdigest (encode s),
                           result_output = result,
                           timestamp = clock i,
                           is_valid = (length (sha256_hexdigest (encode s)) > 0),
                           confidence = (if length (sha256_hexdigest (encode s)) > 0
                                         then 9 / 10 else 1 / 10)\<rparr>) [0, 1, 2])"
  using assms
  by (simp add: multi_agent_verification_def range_py_3 verify_with_agent_def hash_result_def
        Let_def)

lemma apply_voting_unanimous_3:
  assumes "hash a = h" and "hash b = h" and "hash c = h"
  shows "apply_voting original_result [a, b, c] =
           Inr \<lparr>majority_hash = h, majority_count = 3, total_verifiers = 3,
                consensus_strength = 1, hash_groups = [(h, 3)], all_agree = True\<rparr>"
  using assms by (simp add: apply_voting_def group_step_def dict_at_def Let_def)

lemma verify_serializable:
  assumes "json_dumps result = Inr s"
  shows "verify self clock result =
           Inr (verify_verdict self
                  \<lparr>majority_hash = sha256_hexdigest (encode s), majority_count = 3,
                   total_verifiers = 3, consensus_strength = 1,
                   hash_groups = [(sha256_hexdigest (encode s), 3)], all_agree = True\<rparr> 3)"
proof -
  let ?h = "sha256_hexdigest (encode s)"
  let ?v = "\<lambda>i. \<lparr>agent_id = ''verifier-'' @ str_int i, hash = ?h, result_output = result,
                   timestamp = clock i, is_valid = (length ?h > 0),
                   confidence = (if length ?h > 0 then 9 / 10 else 1 / 10 :: rat)\<rparr>"
  have m: "multi_agent_verification clock result 3 = Inr [?v 0, ?v 1, ?v 2]"
    using multi_agent_verification_3 [OF assms, of clock] by simp
  have a: "apply_voting result [?v 0, ?v 1, ?v 2] =
           Inr \<lparr>majority_hash = ?h, majority_count = 3, total_verifiers = 3,
                consensus_strength = 1, hash_groups = [(?h, 3)], all_agree = True\<rparr>"
    by (rule apply_voting_unanimous_3) simp_all
  show ?thesis unfolding verify_def m sum.case a by (simp add: numeral_3_eq_3)
qed

text \<open>
  Claim C1 holds for \<open>MAKEROrchestrator._calculate_consensus\<close> and fails for
  \<open>QualityAgent.apply_voting\<close>: with no verification results \<open>hash_groups\<close> is empty and
  \<open>max\<close> over its keys raises \<open>ValueError\<close>, also when the empty round comes from
  \<open>verify_with_voting\<close>.
\<close>

theorem C1_empty_round:
  "apply_voting original_result ([] :: hashed_result list) = Inl ValueError
   \<and> verify_with_voting self subtask [] = Inl ValueError
   \<and> calculate_consensus [] =
       \<lparr>strength = 0, consensus_result = ''no_consensus'',
        approve_votes = None, consensus_total_votes = None\<rparr>"
  by (simp add: apply_voting_def verify_with_voting_def calculate_consensus_def)

lemma apply_voting_nonempty:
  fixes verification_results :: "'a hashed_result_scheme list"
  assumes "verification_results \<noteq> []"
  shows "\<exists>r pre post.
           apply_voting original_result verification_results = Inr r
         \<and> first_occurrences (map hash verification_results) = pre @ majority_hash r # post
         \<and> (\<forall>h\<in>set pre. length (filter (\<lambda>v. hash v = h) verification_results) < majority_count r)
         \<and> (\<forall>h\<in>set post. length (filter (\<lambda>v. hash v = h) verification_results) \<le> majority_count r)
         \<and> majority_count r = length (filter (\<lambda>v. hash v = majority_hash r) verification_results)
         \<and> total_verifiers r = length verification_results
         \<and> consensus_strength r = of_nat (majority_count r) / of_nat (length verification_results)
         \<and> (all_agree r \<longleftrightarrow> card (set (map hash verification_results)) = 1)"
proof -
  let ?vs = verification_results
  let ?gs = "foldl group_step [] ?vs"
  let ?cnt = "\<lambda>h. length (filter (\<lambda>v. hash v = h) ?vs)"
  let ?F = "\<lambda>h. length (dict_at ?gs h)"
  from groups_foldl [of ?vs] have keys: "map fst ?gs = first_occurrences (map hash ?vs)" by blast
  have kset: "set (map fst ?gs) = set (map hash ?vs)"
    unfolding keys by (rule set_first_occurrences)
  from assms have "set (map hash ?vs) \<noteq> {}" by simp
  with kset have "map fst ?gs \<noteq> []" by auto
  from py_max_first_max [OF this, of ?F] obtain m pre post where m:
    "py_max ?F (map fst ?gs) = Inr m" "map fst ?gs = pre @ m # post"
    "\<forall>y\<in>set pre. ?F y < ?F m" "\<forall>y\<in>set post. ?F y \<le> ?F m" by blast
  have F: "?F h = ?cnt h" if "h \<in> set (map fst ?gs)" for h
    using that kset dict_at_groups [of h ?vs] by simp
  from m(2) have mem: "m \<in> set (map fst ?gs)" "set pre \<subseteq> set (map fst ?gs)"
    "set post \<subseteq> set (map fst ?gs)" by auto
  let ?r = "\<lparr>majority_hash = m,
             majority_count = length (dict_at ?gs m),
             total_verifiers = length ?vs,
             consensus_strength = of_nat (length (dict_at ?gs m)) / of_nat (length ?vs),
             hash_groups = map (\<lambda>(h, g). (h, length g)) ?gs,
             all_agree = (length ?gs = 1)\<rparr>"
  from assms m(1) have r: "apply_voting original_result ?vs = Inr ?r"
    by (simp add: apply_voting_def Let_def)
  have "first_occurrences (map hash ?vs) = pre @ majority_hash ?r # post"
    using keys m(2) by simp
  moreover have "\<forall>h\<in>set pre. ?cnt h < majority_count ?r"
  proof
    fix h assume h: "h \<in> set pre"
    with mem(2) have "h \<in> set (map fst ?gs)" by blast
    then have "?F h = ?cnt h" by (rule F)
    moreover from m(3) h have "?F h < ?F m" by blast
    ultimately show "?cnt h < majority_count ?r" by simp
  qed
  moreover have "\<forall>h\<in>set post. ?cnt h \<le> majority_count ?r"
  proof
    fix h assume h: "h \<in> set post"
    with mem(3) have "h \<in> set (map fst ?gs)" by blast
    then have "?F h = ?cnt h" by (rule F)
    moreover from m(4) h have "?F h \<le> ?F m" by blast
    ultimately show "?cnt h \<le> majority_count ?r" by simp
  qed
  moreover have "majority_count ?r = ?cnt (majority_hash ?r)"
    using F [OF mem(1)] by simp
  moreover have "all_agree ?r \<longleftrightarrow> card (set (map hash ?vs)) = 1"
  proof -
    have "length ?gs = length (map fst ?gs)" by simp
    also have "\<dots> = card (set (map hash ?vs))"
      unfolding keys by (rule length_first_occurrences)
    finally show ?thesis by simp
  qed
  ultimately show ?thesis using r by (intro exI [of _ ?r] exI [of _ pre] exI [of _ post]) simp
qed

text \<open>
  Claim C8: for every non-empty sequence of judgments, \<open>apply_voting\<close> returns a result
  whose majority hash has the largest member count; among the distinct fingerprints in
  their order of first occurrence (the iteration order of the grouping) every fingerprint
  before the majority hash has a strictly smaller count and every one after it has at
  most the same count, so a tie goes to the first-encountered fingerprint.  The consensus
  strength is \<open>majority_count / total_count\<close>, and \<open>all_agree\<close> holds exactly when there is
  one distinct fingerprint.
\<close>

theorem C8_majority_first_encountered:
  fixes verification_results :: "'a hashed_result_scheme list"
  assumes "verification_results \<noteq> []"
  shows "\<exists>r pre post.
           apply_voting original_result verification_results = Inr r
         \<and> first_occurrences (map hash verification_results) = pre @ majority_hash r # post
         \<and> (\<forall>h\<in>set pre. length (filter (\<lambda>v. hash v = h) verification_results) < majority_count r)
         \<and> (\<forall>h\<in>set post. length (filter (\<lambda>v. hash v = h) verification_results) \<le> majority_count r)
         \<and> majority_count r = length (filter (\<lambda>v. hash v = majority_hash r) verification_results)
         \<and> (\<forall>h. length (filter (\<lambda>v. hash v = h) verification_results) \<le> majority_count r)
         \<and> total_verifiers r = length verification_results
         \<and> consensus_strength r = of_nat (majority_count r) / of_nat (length verification_results)
         \<and> (all_agree r \<longleftrightarrow> card (set (map hash verification_results)) = 1)"
proof -
  let ?vs = verification_results
  let ?cnt = "\<lambda>h. length (filter (\<lambda>v. hash v = h) ?vs)"
  from apply_voting_nonempty [OF assms, of original_result] obtain r pre post where r:
    "apply_voting original_result ?vs = Inr r"
    "first_occurrences (map hash ?vs) = pre @ majority_hash r # post"
    "\<forall>h\<in>set pre. ?cnt h < majority_count r"
    "\<forall>h\<in>set post. ?cnt h \<le> majority_count r"
    "majority_count r = ?cnt (majority_hash r)"
    "total_verifiers r = length ?vs"
    "consensus_strength r = of_nat (majority_count r) / of_nat (length ?vs)"
    "all_agree r \<longleftrightarrow> card (set (map hash ?vs)) = 1"
    by blast
  have "?cnt h \<le> majority_count r" for h
  proof (cases "h \<in> set (map hash ?vs)")
    case False
    then have "\<forall>v\<in>set ?vs. hash v \<noteq> h" by auto
    then have "filter (\<lambda>v. hash v = h) ?vs = []" by (simp add: filter_empty_conv)
    then show ?thesis by simp
  next
    case True
    then have "h \<in> set (first_occurrences (map hash ?vs))"
      by (simp only: set_first_occurrences)
    with r(2) consider "h \<in> set pre" | "h = majority_hash r" | "h \<in> set post" by auto
    then show ?thesis
    proof cases
      case 1
      with r(3) have "?cnt h < majority_count r" by blast
      then show ?thesis by simp
    next
      case 2
      with r(5) show ?thesis by simp
    next
      case 3
      with r(4) show ?thesis by blast
    qed
  qed
  with r show ?thesis by blast
qed

theorem C8_majority_first_encountered_witness:
  "[\<lparr>agent_id = ''v1'', hash = ''def456'', result_output = VNone\<rparr>,
    \<lparr>agent_id = ''v2'', hash = ''abc123'', result_output = VNone\<rparr>,
    \<lparr>agent_id = ''v3'', hash = ''abc123'', result_output = VNone\<rparr>,
    \<lparr>agent_id = ''v4'', hash = ''def456'', result_output = VNone\<rparr>] \<noteq> []
   \<and> (\<exists>r pre post.
         apply_voting VNone
           [\<lparr>agent_id = ''v1'', hash = ''def456'', result_output = VNone\<rparr>,
            \<lparr>agent_id = ''v2'', hash = ''abc123'', result_output = VNone\<rparr>,
            \<lparr>agent_id = ''v3'', hash = ''abc123'', result_output = VNone\<rparr>,
            \<lparr>agent_id = ''v4'', hash = ''def456'', result_output = VNone\<rparr>] = Inr r
       \<and> [''def456'', ''abc123''] = pre @ majority_hash r # post
       \<and> majority_hash r = ''def456'' \<and> majority_count r = 2
       \<and> consensus_strength r = 1 / 2 \<and> \<not> all_agree r)"
proof -
  let ?vs = "[\<lparr>agent_id = ''v1'', hash = ''def456'', result_output = VNone\<rparr>,
              \<lparr>agent_id = ''v2'', hash = ''abc123'', result_output = VNone\<rparr>,
              \<lparr>agent_id = ''v3'', hash = ''abc123'', result_output = VNone\<rparr>,
              \<lparr>agent_id = ''v4'', hash = ''def456'', result_output = VNone\<rparr>]"
  have ne: "?vs \<noteq> []" by simp
  have ev: "apply_voting VNone ?vs =
      Inr \<lparr>majority_hash = ''def456'', majority_count = 2, total_verifiers = 4,
           consensus_strength = 1 / 2,
           hash_groups = [(''def456'', 2), (''abc123'', 2)], all_agree = False\<rparr>"
    by (simp add: apply_voting_def group_step_def dict_at_def Let_def)
  have fo: "first_occurrences (map hash ?vs) = [''def456'', ''abc123'']"
    by (simp add: first_occurrences_def)
  from C8_majority_first_encountered [OF ne, of VNone] obtain r pre post where r:
    "apply_voting VNone ?vs = Inr r"
    "first_occurrences (map hash ?vs) = pre @ majority_hash r # post"
    by blast
  from r(1) ev have "r = \<lparr>majority_hash = ''def456'', majority_count = 2, total_verifiers = 4,
           consensus_strength = 1 / 2,
           hash_groups = [(''def456'', 2), (''abc123'', 2)], all_agree = False\<rparr>" by simp
  then have "majority_hash r = ''def456''" "majority_count r = 2"
    "consensus_strength r = 1 / 2" "\<not> all_agree r" by simp_all
  with r fo ne show ?thesis by metis
qed

lemma verify_is_verdict:
  assumes "verify self clock result = Inr out"
  shows "\<exists>vr n. out = verify_verdict self vr n"
  using assms by (auto simp: verify_def split: sum.splits)

lemma json_dumps_data_consistent:
  "json_dumps (VDict [(KStr ''data'', VStr ''consistent'')]) =
     Inr (CHR ''{'' # CHR 0x22 # ''data'' @ CHR 0x22 # '': '' @ CHR 0x22 # ''consistent''
          @ [CHR 0x22, CHR ''}''])"
  by (simp add: sorted_items_def py_encode_basestring_ascii_def escape_char_def)

text \<open>
  Claim C4: for every voting result, the quality score is
  \<open>min 1 (consensus_strength + bonus)\<close> with \<open>bonus = 1/10\<close> if \<open>all_agree\<close> and \<open>0\<close>
  otherwise, and \<open>verified\<close> holds exactly when the score is at least the threshold
  \<open>7/10\<close> of a freshly constructed agent; in particular a round with consensus strength
  exactly \<open>7/10\<close> that is not unanimous is verified.  The same holds of whatever \<open>verify\<close>
  returns.
\<close>

theorem C4_quality_score_threshold:
  "quality_score (verify_verdict (QualityAgent_init aid) vr n) =
       min 1 (consensus_strength vr + (if all_agree vr then 1 / 10 else 0))
   \<and> (verified (verify_verdict (QualityAgent_init aid) vr n) \<longleftrightarrow>
        7 / 10 \<le> quality_score (verify_verdict (QualityAgent_init aid) vr n))
   \<and> (consensus_strength vr = 7 / 10 \<and> \<not> all_agree vr \<longrightarrow>
        verified (verify_verdict (QualityAgent_init aid) vr n))
   \<and> (\<forall>out. verify (QualityAgent_init aid) clock result = Inr out \<longrightarrow>
        quality_score out =
          min 1 (consensus_strength (verification_details out)
                 + (if all_agree (verification_details out) then 1 / 10 else 0))
        \<and> (verified out \<longleftrightarrow> 7 / 10 \<le> quality_score out))"
proof -
  have a: "quality_score (verify_verdict (QualityAgent_init aid) v k) =
       min 1 (consensus_strength v + (if all_agree v then 1 / 10 else 0))" for v k
    by (simp add: verify_verdict_def calculate_quality_score_def Let_def)
  have b: "verified (verify_verdict (QualityAgent_init aid) v k) \<longleftrightarrow>
        7 / 10 \<le> quality_score (verify_verdict (QualityAgent_init aid) v k)" for v k
    by (simp add: verify_verdict_def QualityAgent_init_def Let_def)
  have d: "verification_details (verify_verdict (QualityAgent_init aid) v k) = v" for v k
    by (simp add: verify_verdict_def Let_def)
  have c: "consensus_strength vr = 7 / 10 \<and> \<not> all_agree vr \<longrightarrow>
        verified (verify_verdict (QualityAgent_init aid) vr n)"
    unfolding b a by simp
  have e: "quality_score out =
          min 1 (consensus_strength (verification_details out)
                 + (if all_agree (verification_details out) then 1 / 10 else 0))
        \<and> (verified out \<longleftrightarrow> 7 / 10 \<le> quality_score out)"
    if "verify (QualityAgent_init aid) clock result = Inr out" for out
  proof -
    from verify_is_verdict [OF that] obtain v k
      where "out = verify_verdict (QualityAgent_init aid) v k" by blast
    then show ?thesis using a [of v k] b [of v k] d [of v k] by simp
  qed
  from a [of vr n] b [of vr n] c e show ?thesis by blast
qed

theorem C4_quality_score_threshold_witness:
  "apply_voting VNone
     (map (\<lambda>h. \<lparr>agent_id = ''v'', hash = h, result_output = VNone\<rparr>)
        [''a'', ''a'', ''a'', ''a'', ''a'', ''a'', ''a'', ''b'', ''b'', ''b''])
     = Inr \<lparr>majority_hash = ''a'', majority_count = 7, total_verifiers = 10,
            consensus_strength = 7 / 10, hash_groups = [(''a'', 7), (''b'', 3)],
            all_agree = False\<rparr>
   \<and> verified (verify_verdict (QualityAgent_init ''quality-001'')
        \<lparr>majority_hash = ''a'', majority_count = 7, total_verifiers = 10,
         consensus_strength = 7 / 10, hash_groups = [(''a'', 7), (''b'', 3)],
         all_agree = False\<rparr> 10)
   \<and> quality_score (verify_verdict (QualityAgent_init ''quality-001'')
        \<lparr>majority_hash = ''a'', majority_count = 7, total_verifiers = 10,
         consensus_strength = 7 / 10, hash_groups = [(''a'', 7), (''b'', 3)],
         all_agree = False\<rparr> 10) = 7 / 10
   \<and> (\<exists>out. verify (QualityAgent_init ''quality-001'') (\<lambda>i. 0)
               (VDict [(KStr ''data'', VStr ''consistent'')]) = Inr out
          \<and> quality_score out = 1 \<and> verified out)"
proof -
  let ?vr = "\<lparr>majority_hash = ''a'', majority_count = 7, total_verifiers = 10,
         consensus_strength = 7 / 10 :: rat, hash_groups = [(''a'', 7 :: nat), (''b'', 3)],
         all_agree = False\<rparr>"
  let ?self = "QualityAgent_init ''quality-001''"
  let ?r = "VDict [(KStr ''data'', VStr ''consistent'')]"
  note inst = C4_quality_score_threshold [of "''quality-001''" ?vr 10 "\<lambda>i. 0" ?r]
  have ev: "apply_voting VNone
     (map (\<lambda>h. \<lparr>agent_id = ''v'', hash = h, result_output = VNone\<rparr>)
        [''a'', ''a'', ''a'', ''a'', ''a'', ''a'', ''a'', ''b'', ''b'', ''b'']) = Inr ?vr"
    by (simp add: apply_voting_def group_step_def dict_at_def Let_def)
  have h: "consensus_strength ?vr = 7 / 10 \<and> \<not> all_agree ?vr" by simp
  with inst have v: "verified (verify_verdict ?self ?vr 10)" by blast
  from inst have "quality_score (verify_verdict ?self ?vr 10) =
       min 1 (consensus_strength ?vr + (if all_agree ?vr then 1 / 10 else 0))" by blast
  then have q: "quality_score (verify_verdict ?self ?vr 10) = 7 / 10" by simp
  from verify_serializable [OF json_dumps_data_consistent, of ?self "\<lambda>i. 0"]
  obtain out where out: "verify ?self (\<lambda>i. 0) ?r = Inr out"
    "all_agree (verification_details out)" "consensus_strength (verification_details out) = 1"
    by (simp add: verify_verdict_def Let_def)
  from inst out(1) have "quality_score out =
          min 1 (consensus_strength (verification_details out)
                 + (if all_agree (verification_details out) then 1 / 10 else 0))"
    and vo: "verified out \<longleftrightarrow> 7 / 10 \<le> quality_score out" by blast+
  with out(2,3) have "quality_score out = 1" by simp
  with vo have "quality_score out = 1 \<and> verified out" by simp
  with out(1) ev v q show ?thesis by blast
qed

text \<open>
  Claim C9: for every result that \<open>json.dumps\<close> can serialize, \<open>verify\<close> with the default
  verifiers returns \<open>verified = True\<close>, \<open>quality_score = 1\<close>, \<open>verification_count = 3\<close> and
  \<open>all_agree = True\<close>: the three verifiers hash the same input, so the round is always
  unanimous.
\<close>

theorem C9_default_verify_always_passes:
  assumes "json_dumps result = Inr s"
  shows "\<exists>out. verify (QualityAgent_init aid) clock result = Inr out
           \<and> verified out \<and> quality_score out = 1 \<and> verification_count out = 3
           \<and> all_agree (verification_details out)"
  using verify_serializable [OF assms, of "QualityAgent_init aid" clock]
  by (simp add: verify_verdict_def calculate_quality_score_def QualityAgent_init_def Let_def)

theorem C9_default_verify_always_passes_witness:
  "json_dumps (VDict [(KStr ''data'', VStr ''consistent'')]) =
     Inr (CHR ''{'' # CHR 0x22 # ''data'' @ CHR 0x22 # '': '' @ CHR 0x22 # ''consistent''
          @ [CHR 0x22, CHR ''}''])
   \<and> (\<exists>out. verify (QualityAgent_init ''quality-001'') (\<lambda>i. 0)
               (VDict [(KStr ''data'', VStr ''consistent'')]) = Inr out
          \<and> verified out \<and> quality_score out = 1 \<and> verification_count out = 3
          \<and> all_agree (verification_details out))"
  using C9_default_verify_always_passes [OF json_dumps_data_consistent, of "''quality-001''" "\<lambda>i. 0"]
    json_dumps_data_consistent
  by blast

section \<open>Properties of the MAKER vote\<close>

lemma reputation_clamped:
  assumes "reputation_scores (orchestrator_after client updates) a = Some r"
  shows "0 \<le> r \<and> r \<le> 100"
  using assms
proof (induction updates arbitrary: r rule: rev_induct)
  case Nil
  then show ?case by (simp add: orchestrator_after_def MAKEROrchestrator_init_def)
next
  case (snoc u us)
  have step: "orchestrator_after client (us @ [u]) =
      update_reputation (orchestrator_after client us) (fst u) (snd u)"
    by (simp add: orchestrator_after_def)
  show ?case
  proof (cases "a = fst u")
    case True
    with snoc.prems show ?thesis by (auto simp: step update_reputation_def)
  next
    case False
    with snoc.prems have "reputation_scores (orchestrator_after client us) a = Some r"
      by (simp add: step update_reputation_def)
    then show ?thesis by (rule snoc.IH)
  qed
qed

lemma generate_vote_weight_nonneg:
  "0 \<le> weight (generate_vote (orchestrator_after client updates) results_str i)"
proof (cases "reputation_scores (orchestrator_after client updates) (''voter-'' @ str_int i)")
  case None
  then show ?thesis by (simp add: generate_vote_def Let_def)
next
  case (Some r)
  with reputation_clamped [OF Some] show ?thesis by (simp add: generate_vote_def Let_def)
qed

lemma sum_list_pos:
  fixes xs :: "rat list"
  assumes "\<forall>x\<in>set xs. 0 \<le> x" and "\<exists>x\<in>set xs. 0 < x"
  shows "0 < sum_list xs"
  using assms
proof (induction xs)
  case Nil
  then show ?case by simp
next
  case (Cons x xs)
  then have nn: "0 \<le> x" "\<forall>y\<in>set xs. 0 \<le> y" by simp_all
  then have s: "0 \<le> sum_list xs" by (simp add: sum_list_nonneg)
  show ?case
  proof (cases "0 < x")
    case True
    with s show ?thesis by simp
  next
    case False
    with Cons.prems(2) have "\<exists>y\<in>set xs. 0 < y" by auto
    with Cons.IH nn(2) have "0 < sum_list xs" by blast
    with nn(1) show ?thesis by simp
  qed
qed

lemma consensus_all_approve:
  assumes "\<forall>v\<in>set vs. vote_choice v = ''approve''" and "0 < sum_list (map weight vs)"
  shows "strength (calculate_consensus vs) = 1
         \<and> consensus_result (calculate_consensus vs) = ''approved''"
proof -
  from assms(2) have ne: "vs \<noteq> []" by auto
  from assms(1) have "filter (\<lambda>v. vote_choice v = ''approve'') vs = vs" by (simp add: filter_id_conv)
  with ne assms(2) show ?thesis by (simp add: calculate_consensus_def Let_def)
qed



text \<open>
  Claim C10: every vote produced by \<open>_generate_vote\<close> has \<open>vote = "approve"\<close>; hence for
  every orchestrator reached from a new one by calls of \<open>update_reputation\<close>, every
  results text and every \<open>num_voters \<ge> 1\<close>, if at least one of the voters has a positive
  reputation score, \<open>vote\<close> returns consensus strength 1 and the result \<open>approved\<close>.
\<close>

theorem C10_maker_vote_never_rejects:
  "vote_choice (generate_vote self results_str i) = ''approve''
   \<and> (1 \<le> num_voters
        \<and> (\<exists>i\<in>set (range_py num_voters).
              0 < reputation (generate_vote (orchestrator_after client updates) results_str i))
      \<longrightarrow> vote_consensus_strength
            (vote (orchestrator_after client updates) results_str num_voters use_hydra) = 1
        \<and> consensus_result (vote_consensus
            (vote (orchestrator_after client updates) results_str num_voters use_hydra))
            = ''approved'')"
proof -
  let ?st = "orchestrator_after client updates"
  let ?vs = "map (generate_vote ?st results_str) (range_py num_voters)"
  have ap: "vote_choice (generate_vote s r k) = ''approve''" for s r k
    by (simp add: generate_vote_def Let_def)
  have main: "vote_consensus_strength (vote ?st results_str num_voters use_hydra) = 1
        \<and> consensus_result (vote_consensus (vote ?st results_str num_voters use_hydra))
            = ''approved''"
    if "\<exists>i\<in>set (range_py num_voters). 0 < reputation (generate_vote ?st results_str i)"
  proof -
    from that obtain k where k: "k \<in> set (range_py num_voters)"
      "0 < reputation (generate_vote ?st results_str k)" by blast
    have wk: "weight (generate_vote ?st results_str k)
                = of_int (reputation (generate_vote ?st results_str k)) / 100"
      by (simp add: generate_vote_def Let_def)
    from k(2) have "0 < weight (generate_vote ?st results_str k)" unfolding wk by simp
    with k(1) have some: "\<exists>x\<in>set (map weight ?vs). 0 < x" by auto
    have all: "\<forall>x\<in>set (map weight ?vs). 0 \<le> x"
      using generate_vote_weight_nonneg [of client updates results_str] by auto
    from all some have pos: "0 < sum_list (map weight ?vs)" by (rule sum_list_pos)
    have "\<forall>v\<in>set ?vs. vote_choice v = ''approve''" using ap by auto
    from consensus_all_approve [OF this pos] show ?thesis by (simp add: vote_def Let_def)
  qed
  from ap [of self results_str i] main show ?thesis by blast
qed

theorem C10_maker_vote_never_rejects_witness:
  "(1::int) \<le> 5
   \<and> (\<exists>i\<in>set (range_py 5). 0 < reputation (generate_vote (orchestrator_after False []) ''[]'' i))
   \<and> reputation (generate_vote (orchestrator_after False []) ''[]'' 0) = 50
   \<and> vote_consensus_strength (vote (orchestrator_after False []) ''[]'' 5 True) = 1
   \<and> consensus_result (vote_consensus (vote (orchestrator_after False []) ''[]'' 5 True))
        = ''approved''"
proof -
  have r: "reputation (generate_vote (orchestrator_after False []) ''[]'' 0) = 50"
    by (simp add: generate_vote_def orchestrator_after_def MAKEROrchestrator_init_def Let_def)
  have "(0::int) \<in> set (range_py 5)" by (simp add: range_py_def image_iff)
  with r have h: "\<exists>i\<in>set (range_py 5).
      0 < reputation (generate_vote (orchestrator_after False []) ''[]'' i)" by force
  have n: "(1::int) \<le> 5" by simp
  from C10_maker_vote_never_rejects [where num_voters = 5 and client = False
      and updates = "[]" and results_str = "''[]''" and use_hydra = True] n h r
  show ?thesis by blast
qed

end
